theory Spec2Isabelle
  imports Complex_Main "HOL-Library.Multiset" "HOL-Library.Monad_Syntax"
begin

section \<open>Numbers of the program\<close>

text \<open>
  The program computes with C \<open>double\<close> values, whose arithmetic rounds, overflows to
  an infinity and has a not-a-number value. None of this is code of the repository, and
  the model fixes none of it: \<open>double\<close> is a type variable \<open>'d\<close>, and the operators
  \<open>+\<close>, \<open>-\<close>, \<open>*\<close>, \<open>/\<close> and \<open><=\<close> written below are those of the classes
  \<open>plus\<close>, \<open>minus\<close>, \<open>times\<close>, \<open>inverse\<close> and \<open>ord\<close>, which give a type the
  symbols and assume no law about them (no associativity, no commutativity, nothing
  about \<open><=\<close>). What is proved of the rules therefore holds whatever the arithmetic of
  \<open>double\<close> is, the binary64 arithmetic of the C implementation included.

  The rest that the C implementation supplies is a record: the value of the macro
  \<open>NAN\<close>, the value \<open>lit q\<close> of a floating constant such as \<open>0.5\<close> or \<open>3.0\<close>, the
  conversion \<open>to_double\<close> of an integer (which C inserts in \<open>(b - a) / n\<close>,
  \<open>i * dx\<close>, \<open>i + 0.5\<close>, \<open>sum / n\<close>, and which the source writes in
  \<open>(double)rand()\<close>), and \<open>RAND_MAX\<close>.
\<close>

record 'd env =
  NAN :: 'd
  lit :: "rat \<Rightarrow> 'd"
  to_double :: "int \<Rightarrow> 'd"
  RAND_MAX :: int

text \<open>
  Counters and the interval count are \<open>long long\<close> in the source; the model takes them
  as mathematical integers. A counter of a loop over \<open>n\<close> intervals stays between
  \<open>0\<close> and \<open>n + 1\<close>. It reaches \<open>n + 1\<close> only on leaving the first loop of
  Simpson's 1/3 rule, where \<open>n\<close> is even, and on leaving the loop \<open>i <= n\<close> of the
  right-endpoint rule, after \<open>n\<close> calls of the integrand; so the counters of the
  source stay in the range of \<open>long long\<close> as those of the model do, for every
  \<open>n\<close> but the largest \<open>long long\<close> in the right-endpoint rule.
\<close>


section \<open>What a call can observe and change\<close>

text \<open>
  The rules call the integrand through a function pointer, and Monte Carlo integration
  calls \<open>rand()\<close>, which reads and advances the hidden state of the C library's
  generator. Both are made explicit: \<open>evals\<close> records the arguments at which the
  integrand has been called, oldest first, and \<open>rng\<close> is the stream of values that
  the coming calls of \<open>rand()\<close> will return. The integrand itself is a function of
  its argument alone.

  A pointer is an \<open>option\<close>, and so is the outcome of a rule: \<open>None\<close> is the
  undefined behaviour of reading through a null pointer or calling one.
\<close>

record 'd world =
  evals :: "'d list"
  rng :: "nat \<Rightarrow> int"

definition call :: "('d \<Rightarrow> 'd) option \<Rightarrow> 'd \<Rightarrow> 'd world \<Rightarrow> ('d \<times> 'd world) option" where
  "call f x w =
     (case f of None \<Rightarrow> None | Some g \<Rightarrow> Some (g x, w\<lparr>evals := evals w @ [x]\<rparr>))"

definition rand :: "'d world \<Rightarrow> int \<times> 'd world" where
  "rand w = (rng w 0, w\<lparr>rng := (\<lambda>k. rng w (Suc k))\<rparr>)"


section \<open>The loops of the source\<close>

text \<open>\<open>for (long long i = i0; i < n; ++i) body\<close>\<close>

function for_inc :: "int \<Rightarrow> int \<Rightarrow> (int \<Rightarrow> 's \<Rightarrow> 's option) \<Rightarrow> 's \<Rightarrow> 's option" where
  "for_inc i n body s =
     (if i < n then (case body i s of None \<Rightarrow> None | Some s' \<Rightarrow> for_inc (i + 1) n body s')
      else Some s)"
  by pat_completeness auto
termination
  by (relation "measure (\<lambda>(i, n, body, s). nat (n - i))") auto

text \<open>\<open>for (long long i = i0; i <= n; ++i) body\<close>\<close>

function for_inc_le :: "int \<Rightarrow> int \<Rightarrow> (int \<Rightarrow> 's \<Rightarrow> 's option) \<Rightarrow> 's \<Rightarrow> 's option" where
  "for_inc_le i n body s =
     (if i \<le> n then (case body i s of None \<Rightarrow> None | Some s' \<Rightarrow> for_inc_le (i + 1) n body s')
      else Some s)"
  by pat_completeness auto
termination
  by (relation "measure (\<lambda>(i, n, body, s). nat (n + 1 - i))") auto

text \<open>\<open>for (long long i = i0; i < n; i += 2) body\<close>\<close>

function for_inc2 :: "int \<Rightarrow> int \<Rightarrow> (int \<Rightarrow> 's \<Rightarrow> 's option) \<Rightarrow> 's \<Rightarrow> 's option" where
  "for_inc2 i n body s =
     (if i < n then (case body i s of None \<Rightarrow> None | Some s' \<Rightarrow> for_inc2 (i + 2) n body s')
      else Some s)"
  by pat_completeness auto
termination
  by (relation "measure (\<lambda>(i, n, body, s). nat (n - i))") auto

declare for_inc.simps [simp del] for_inc_le.simps [simp del] for_inc2.simps [simp del]


section \<open>The request and its validation\<close>

text \<open>
  \<open>IntegrationParams\<close> of \<open>integration_techniques.h\<close>. The function pointer may be
  null (\<open>None\<close>), and so may the pointer to the request that every rule receives.
  In \<open>is_invalid\<close> the operator \<open>||\<close> stops at the first true operand, so that the
  members are read only of a request that is there.
\<close>

record 'd IntegrationParams =
  func :: "('d \<Rightarrow> 'd) option"
  lower_bound :: 'd
  upper_bound :: 'd
  num_intervals :: int

definition is_invalid :: "('d::ord) IntegrationParams option \<Rightarrow> bool" where
  "is_invalid params =
     (case params of
        None \<Rightarrow> True
      | Some p \<Rightarrow> func p = None \<or> num_intervals p \<le> 0 \<or> upper_bound p \<le> lower_bound p)"


section \<open>The seven integration rules\<close>

text \<open>
  Each rule takes the C implementation's constants, the request pointer and the world,
  and returns the \<open>double\<close> it computes together with the world it leaves. After
  \<open>is_invalid\<close> has answered no, a rule reads the members of the request
  (\<open>p \<leftarrow> params\<close>, undefined for a null pointer) and calls the function (undefined for
  a null function). The remainder tests \<open>n % 2 != 0\<close> and \<open>i % 3 == 0\<close> compare a
  remainder with zero, where C's truncating \<open>%\<close> and \<open>mod\<close> agree.
\<close>

definition rectangle_left_endpoint ::
  "'d env \<Rightarrow> ('d::{plus,minus,times,inverse,ord}) IntegrationParams option \<Rightarrow> 'd world
     \<Rightarrow> ('d \<times> 'd world) option" where
  "rectangle_left_endpoint c params w =
     (if is_invalid params then Some (NAN c, w)
      else do {
        p \<leftarrow> params;
        let a = lower_bound p;
        let b = upper_bound p;
        let n = num_intervals p;
        let f = func p;
        let dx = (b - a) / to_double c n;
        (sum, w) \<leftarrow> for_inc 0 n (\<lambda>i (sum, w). do {
            (y, w) \<leftarrow> call f (a + to_double c i * dx) w;
            Some (sum + y, w) }) (lit c 0, w);
        Some (sum * dx, w)
      })"

definition rectangle_right_endpoint ::
  "'d env \<Rightarrow> ('d::{plus,minus,times,inverse,ord}) IntegrationParams option \<Rightarrow> 'd world
     \<Rightarrow> ('d \<times> 'd world) option" where
  "rectangle_right_endpoint c params w =
     (if is_invalid params then Some (NAN c, w)
      else do {
        p \<leftarrow> params;
        let a = lower_bound p;
        let b = upper_bound p;
        let n = num_intervals p;
        let f = func p;
        let dx = (b - a) / to_double c n;
        (sum, w) \<leftarrow> for_inc_le 1 n (\<lambda>i (sum, w). do {
            (y, w) \<leftarrow> call f (a + to_double c i * dx) w;
            Some (sum + y, w) }) (lit c 0, w);
        Some (sum * dx, w)
      })"

definition rectangle_midpoint ::
  "'d env \<Rightarrow> ('d::{plus,minus,times,inverse,ord}) IntegrationParams option \<Rightarrow> 'd world
     \<Rightarrow> ('d \<times> 'd world) option" where
  "rectangle_midpoint c params w =
     (if is_invalid params then Some (NAN c, w)
      else do {
        p \<leftarrow> params;
        let a = lower_bound p;
        let b = upper_bound p;
        let n = num_intervals p;
        let f = func p;
        let dx = (b - a) / to_double c n;
        (sum, w) \<leftarrow> for_inc 0 n (\<lambda>i (sum, w). do {
            (y, w) \<leftarrow> call f (a + (to_double c i + lit c (1 / 2)) * dx) w;
            Some (sum + y, w) }) (lit c 0, w);
        Some (sum * dx, w)
      })"

text \<open>
  C leaves open which operand of \<open>f(a) + f(b)\<close> is evaluated first; the model calls
  \<open>f(a)\<close> first.
\<close>

definition trapezoidal_rule ::
  "'d env \<Rightarrow> ('d::{plus,minus,times,inverse,ord}) IntegrationParams option \<Rightarrow> 'd world
     \<Rightarrow> ('d \<times> 'd world) option" where
  "trapezoidal_rule c params w =
     (if is_invalid params then Some (NAN c, w)
      else do {
        p \<leftarrow> params;
        let a = lower_bound p;
        let b = upper_bound p;
        let n = num_intervals p;
        let f = func p;
        let dx = (b - a) / to_double c n;
        (ya, w) \<leftarrow> call f a w;
        (yb, w) \<leftarrow> call f b w;
        (sum, w) \<leftarrow> for_inc 1 n (\<lambda>i (sum, w). do {
            (y, w) \<leftarrow> call f (a + to_double c i * dx) w;
            Some (sum + y, w) }) (lit c (1 / 2) * (ya + yb), w);
        Some (sum * dx, w)
      })"

text \<open>
  The accumulation of Simpson's 1/3 rule (the endpoints and the two loops, before the
  final scaling by \<open>dx / 3.0\<close>) is a definition of its own, so that the weighted sum
  can be spoken about.
\<close>

definition simpsons_1_3_sum ::
  "'d env \<Rightarrow> ('d \<Rightarrow> 'd) option \<Rightarrow> ('d::{plus,times}) \<Rightarrow> 'd \<Rightarrow> 'd \<Rightarrow> int \<Rightarrow> 'd world
     \<Rightarrow> ('d \<times> 'd world) option" where
  "simpsons_1_3_sum c f a b dx n w =
     do {
       (ya, w) \<leftarrow> call f a w;
       (yb, w) \<leftarrow> call f b w;
       (sum, w) \<leftarrow> for_inc2 1 n (\<lambda>i (sum, w). do {
           (y, w) \<leftarrow> call f (a + to_double c i * dx) w;
           Some (sum + lit c 4 * y, w) }) (ya + yb, w);
       for_inc2 2 (n - 1) (\<lambda>i (sum, w). do {
           (y, w) \<leftarrow> call f (a + to_double c i * dx) w;
           Some (sum + lit c 2 * y, w) }) (sum, w)
     }"

definition simpsons_1_3_rule ::
  "'d env \<Rightarrow> ('d::{plus,minus,times,inverse,ord}) IntegrationParams option \<Rightarrow> 'd world
     \<Rightarrow> ('d \<times> 'd world) option" where
  "simpsons_1_3_rule c params w =
     (if is_invalid params then Some (NAN c, w)
      else do {
        p \<leftarrow> params;
        if num_intervals p mod 2 \<noteq> 0 then Some (NAN c, w)
        else do {
          let a = lower_bound p;
          let b = upper_bound p;
          let n = num_intervals p;
          let f = func p;
          let dx = (b - a) / to_double c n;
          (sum, w) \<leftarrow> simpsons_1_3_sum c f a b dx n w;
          Some (sum * dx / lit c 3, w)
        }
      })"

definition simpsons_3_8_rule ::
  "'d env \<Rightarrow> ('d::{plus,minus,times,inverse,ord}) IntegrationParams option \<Rightarrow> 'd world
     \<Rightarrow> ('d \<times> 'd world) option" where
  "simpsons_3_8_rule c params w =
     (if is_invalid params then Some (NAN c, w)
      else do {
        p \<leftarrow> params;
        if num_intervals p mod 3 \<noteq> 0 then Some (NAN c, w)
        else do {
          let a = lower_bound p;
          let b = upper_bound p;
          let n = num_intervals p;
          let f = func p;
          let dx = (b - a) / to_double c n;
          (ya, w) \<leftarrow> call f a w;
          (yb, w) \<leftarrow> call f b w;
          (sum, w) \<leftarrow> for_inc 1 n (\<lambda>i (sum, w).
              if i mod 3 = 0
              then do { (y, w) \<leftarrow> call f (a + to_double c i * dx) w;
                        Some (sum + lit c 2 * y, w) }
              else do { (y, w) \<leftarrow> call f (a + to_double c i * dx) w;
                        Some (sum + lit c 3 * y, w) }) (ya + yb, w);
          Some (sum * dx * lit c 3 / lit c 8, w)
        }
      })"

definition monte_carlo_integration ::
  "'d env \<Rightarrow> ('d::{plus,minus,times,inverse,ord}) IntegrationParams option \<Rightarrow> 'd world
     \<Rightarrow> ('d \<times> 'd world) option" where
  "monte_carlo_integration c params w =
     (if is_invalid params then Some (NAN c, w)
      else do {
        p \<leftarrow> params;
        let a = lower_bound p;
        let b = upper_bound p;
        let n = num_intervals p;
        let f = func p;
        let range = b - a;
        (sum, w) \<leftarrow> for_inc 0 n (\<lambda>i (sum, w). do {
            let (r, w) = rand w;
            let random_x = a + (to_double c r / to_double c (RAND_MAX c)) * range;
            (y, w) \<leftarrow> call f random_x w;
            Some (sum + y, w) }) (lit c 0, w);
        Some ((sum / to_double c n) * range, w)
      })"


section \<open>The driver's table of methods\<close>

text \<open>
  \<open>main.c\<close> keeps the seven rules in the array \<open>methods\<close> and calls each through its
  function pointer.
\<close>

definition methods ::
  "'d env \<Rightarrow> (('d::{plus,minus,times,inverse,ord}) IntegrationParams option \<Rightarrow> 'd world
     \<Rightarrow> ('d \<times> 'd world) option) list" where
  "methods c =
     [rectangle_left_endpoint c, rectangle_right_endpoint c, rectangle_midpoint c,
      trapezoidal_rule c, simpsons_1_3_rule c, simpsons_3_8_rule c, monte_carlo_integration c]"

text \<open>Two calls of one method with the same request, the second in the world the first left.\<close>

definition call_twice ::
  "('d IntegrationParams option \<Rightarrow> 'd world \<Rightarrow> ('d \<times> 'd world) option)
     \<Rightarrow> 'd IntegrationParams option \<Rightarrow> 'd world \<Rightarrow> ('d \<times> 'd) option" where
  "call_twice method params w =
     do {
       (r1, w1) \<leftarrow> method params w;
       (r2, w2) \<leftarrow> method params w1;
       Some (r1, r2)
     }"

text \<open>\<open>f_quadratic\<close> of \<open>main.c\<close>.\<close>

definition f_quadratic :: "('d::times) \<Rightarrow> 'd" where
  "f_quadratic x = x * x"


section \<open>Notions of the specification\<close>

text \<open>The width \<open>dx = (upper - lower) / intervals\<close> of a subinterval.\<close>

definition dx_of :: "'d env \<Rightarrow> ('d::{minus,inverse}) IntegrationParams \<Rightarrow> 'd" where
  "dx_of c p = (upper_bound p - lower_bound p) / to_double c (num_intervals p)"

text \<open>
  The sum of a list of terms added to \<open>s\<close> one after the other, from left to right:
  \<open>((s + y1) + y2) + ...\<close>. This is the naive accumulation of the specification,
  and the only reading of a sum that does not need addition to be associative.
\<close>

definition sum_from :: "('d::plus) \<Rightarrow> 'd list \<Rightarrow> 'd" where
  "sum_from s ys = foldl (+) s ys"


section \<open>Two arithmetics to run the examples in\<close>

text \<open>
  The rules are defined, and the theorems about them proved, for every arithmetic. An
  example needs one. The first is exact: a value is \<open>NaN\<close> or a real number, an
  operation on real numbers returns the exact result, and an operation with a \<open>NaN\<close>
  operand returns \<open>NaN\<close>, as does a division by zero. It is not the arithmetic of the
  program. It is used to count the weights of Simpson's rule, and to run the rules on
  inputs where every operation of the source has an exact result that is a binary64
  number of moderate size: there binary64 arithmetic returns that result too.
\<close>

datatype exact = NaN | Val real

instantiation exact :: "{plus,minus,times,inverse,ord}"
begin

fun plus_exact :: "exact \<Rightarrow> exact \<Rightarrow> exact" where
  "plus_exact (Val x) (Val y) = Val (x + y)"
| "plus_exact _ _ = NaN"

fun minus_exact :: "exact \<Rightarrow> exact \<Rightarrow> exact" where
  "minus_exact (Val x) (Val y) = Val (x - y)"
| "minus_exact _ _ = NaN"

fun times_exact :: "exact \<Rightarrow> exact \<Rightarrow> exact" where
  "times_exact (Val x) (Val y) = Val (x * y)"
| "times_exact _ _ = NaN"

fun divide_exact :: "exact \<Rightarrow> exact \<Rightarrow> exact" where
  "divide_exact (Val x) (Val y) = (if y = 0 then NaN else Val (x / y))"
| "divide_exact _ _ = NaN"

fun inverse_exact :: "exact \<Rightarrow> exact" where
  "inverse_exact (Val x) = (if x = 0 then NaN else Val (inverse x))"
| "inverse_exact NaN = NaN"

fun less_eq_exact :: "exact \<Rightarrow> exact \<Rightarrow> bool" where
  "less_eq_exact (Val x) (Val y) = (x \<le> y)"
| "less_eq_exact _ _ = False"

fun less_exact :: "exact \<Rightarrow> exact \<Rightarrow> bool" where
  "less_exact (Val x) (Val y) = (x < y)"
| "less_exact _ _ = False"

instance ..

end

definition exact_env :: "exact env" where
  "exact_env =
     \<lparr>NAN = NaN, lit = (\<lambda>q. Val (of_rat q)), to_double = (\<lambda>i. Val (of_int i)), RAND_MAX = 32767\<rparr>"

text \<open>
  The second adds what the first lacks to follow the source where a result overflows:
  the two infinities, with the arithmetic that IEEE 754 gives them, and the overflow of a
  result of magnitude \<open>2 ^ 1024\<close> or more to an infinity. It does not round, and zero
  carries no sign (a division of a nonzero number by zero takes zero as positive). It
  agrees with binary64 on every operation whose operands are binary64 values and whose
  exact result is a binary64 number or has magnitude \<open>2 ^ 1024\<close> or more, and on the
  operations of an infinity or \<open>NaN\<close> with such values, division by zero apart.
\<close>

datatype wide = WNaN | PInf | NInf | Fin real

definition clip :: "real \<Rightarrow> wide" where
  "clip r = (if 2 ^ 1024 \<le> r then PInf else if r \<le> - (2 ^ 1024) then NInf else Fin r)"

fun wneg :: "wide \<Rightarrow> wide" where
  "wneg WNaN = WNaN"
| "wneg PInf = NInf"
| "wneg NInf = PInf"
| "wneg (Fin x) = Fin (- x)"

instantiation wide :: "{plus,minus,times,inverse,ord}"
begin

fun plus_wide :: "wide \<Rightarrow> wide \<Rightarrow> wide" where
  "plus_wide (Fin x) (Fin y) = clip (x + y)"
| "plus_wide WNaN _ = WNaN"
| "plus_wide _ WNaN = WNaN"
| "plus_wide PInf NInf = WNaN"
| "plus_wide NInf PInf = WNaN"
| "plus_wide PInf _ = PInf"
| "plus_wide _ PInf = PInf"
| "plus_wide NInf _ = NInf"
| "plus_wide _ NInf = NInf"

definition minus_wide :: "wide \<Rightarrow> wide \<Rightarrow> wide" where
  "minus_wide x y = x + wneg y"

fun times_wide :: "wide \<Rightarrow> wide \<Rightarrow> wide" where
  "times_wide (Fin x) (Fin y) = clip (x * y)"
| "times_wide WNaN _ = WNaN"
| "times_wide _ WNaN = WNaN"
| "times_wide (Fin x) PInf = (if x = 0 then WNaN else if 0 < x then PInf else NInf)"
| "times_wide (Fin x) NInf = (if x = 0 then WNaN else if 0 < x then NInf else PInf)"
| "times_wide PInf (Fin y) = (if y = 0 then WNaN else if 0 < y then PInf else NInf)"
| "times_wide NInf (Fin y) = (if y = 0 then WNaN else if 0 < y then NInf else PInf)"
| "times_wide PInf PInf = PInf"
| "times_wide NInf NInf = PInf"
| "times_wide PInf NInf = NInf"
| "times_wide NInf PInf = NInf"

fun divide_wide :: "wide \<Rightarrow> wide \<Rightarrow> wide" where
  "divide_wide (Fin x) (Fin y) =
     (if y = 0 then (if x = 0 then WNaN else if 0 < x then PInf else NInf) else clip (x / y))"
| "divide_wide WNaN _ = WNaN"
| "divide_wide _ WNaN = WNaN"
| "divide_wide (Fin x) PInf = Fin 0"
| "divide_wide (Fin x) NInf = Fin 0"
| "divide_wide PInf (Fin y) = (if 0 \<le> y then PInf else NInf)"
| "divide_wide NInf (Fin y) = (if 0 \<le> y then NInf else PInf)"
| "divide_wide _ _ = WNaN"

fun inverse_wide :: "wide \<Rightarrow> wide" where
  "inverse_wide (Fin x) = (if x = 0 then PInf else clip (inverse x))"
| "inverse_wide WNaN = WNaN"
| "inverse_wide _ = Fin 0"

fun less_eq_wide :: "wide \<Rightarrow> wide \<Rightarrow> bool" where
  "less_eq_wide (Fin x) (Fin y) = (x \<le> y)"
| "less_eq_wide WNaN _ = False"
| "less_eq_wide _ WNaN = False"
| "less_eq_wide NInf _ = True"
| "less_eq_wide _ PInf = True"
| "less_eq_wide _ _ = False"

fun less_wide :: "wide \<Rightarrow> wide \<Rightarrow> bool" where
  "less_wide (Fin x) (Fin y) = (x < y)"
| "less_wide WNaN _ = False"
| "less_wide _ WNaN = False"
| "less_wide PInf _ = False"
| "less_wide _ NInf = False"
| "less_wide _ _ = True"

instance ..

end

definition wide_env :: "wide env" where
  "wide_env =
     \<lparr>NAN = WNaN, lit = (\<lambda>q. Fin (of_rat q)), to_double = (\<lambda>i. Fin (of_int i)), RAND_MAX = 32767\<rparr>"

text \<open>
  The first problem of \<open>main.c\<close>, \<open>f_quadratic\<close> on \<open>[0, 1]\<close>, and the same
  integrand on \<open>[0, 6]\<close>.
\<close>

definition quadratic_problem :: "int \<Rightarrow> exact IntegrationParams" where
  "quadratic_problem n =
     \<lparr>func = Some f_quadratic, lower_bound = Val 0, upper_bound = Val 1, num_intervals = n\<rparr>"

definition quadratic_problem_6 :: "int \<Rightarrow> exact IntegrationParams" where
  "quadratic_problem_6 n =
     \<lparr>func = Some f_quadratic, lower_bound = Val 0, upper_bound = Val 6, num_intervals = n\<rparr>"

text \<open>A world in which the integrand has not been called and \<open>rand()\<close> will return zeros.\<close>

definition w0 :: "'d world" where
  "w0 = \<lparr>evals = [], rng = (\<lambda>k. 0)\<rparr>"

text \<open>
  With \<open>RAND_MAX = 32767\<close>: a world in which \<open>rand()\<close> will return \<open>RAND_MAX\<close> every
  time, and one in which it will return 0 once and \<open>RAND_MAX\<close> from then on.
\<close>

definition w_max :: "'d world" where
  "w_max = \<lparr>evals = [], rng = (\<lambda>k. 32767)\<rparr>"

definition w_step :: "'d world" where
  "w_step = \<lparr>evals = [], rng = (\<lambda>k. if k = 0 then 0 else 32767)\<rparr>"

text \<open>
  Two requests whose arithmetic overflows: the integrand constantly zero between the
  bounds \<open>- 2 ^ 1023\<close> and \<open>2 ^ 1023\<close>, whose difference is not a finite
  \<open>double\<close>, and the integrand constantly \<open>2 ^ 1023\<close> on \<open>[0, 1]\<close>.
\<close>

definition zero_on_wide_interval :: "int \<Rightarrow> wide IntegrationParams" where
  "zero_on_wide_interval n =
     \<lparr>func = Some (\<lambda>x. Fin 0), lower_bound = Fin (- (2 ^ 1023)), upper_bound = Fin (2 ^ 1023),
      num_intervals = n\<rparr>"

definition huge_on_unit_interval :: "int \<Rightarrow> wide IntegrationParams" where
  "huge_on_unit_interval n =
     \<lparr>func = Some (\<lambda>x. Fin (2 ^ 1023)), lower_bound = Fin 0, upper_bound = Fin 1,
      num_intervals = n\<rparr>"


section \<open>The loops as folds over their index lists\<close>

text \<open>
  A loop whose body always returns runs to its end, and its effect is the fold of the
  body over the list of the indices it visits: \<open>[i..n - 1]\<close> for \<open>i < n\<close>,
  \<open>[i..n]\<close> for \<open>i <= n\<close>, every second element from \<open>i\<close> on for \<open>i += 2\<close>.
\<close>

lemma for_inc_Some:
  assumes "\<And>i s. body i s = Some (step i s)"
  shows "for_inc i n body s = Some (fold step [i..n - 1] s)"
  using assms
proof (induction i n body s rule: for_inc.induct)
  case (1 i n body s)
  show ?case
  proof (cases "i < n")
    case True
    then have "[i..n - 1] = i # [i + 1..n - 1]"
      by (simp add: upto_rec1)
    moreover have "for_inc (i + 1) n body (step i s) = Some (fold step [i + 1..n - 1] (step i s))"
      using True "1.prems" by (intro "1.IH") simp_all
    ultimately show ?thesis
      using True "1.prems" [of i s] by (subst for_inc.simps) simp
  next
    case False
    then show ?thesis
      by (simp add: for_inc.simps [of i])
  qed
qed

lemma for_inc_le_Some:
  assumes "\<And>i s. body i s = Some (step i s)"
  shows "for_inc_le i n body s = Some (fold step [i..n] s)"
  using assms
proof (induction i n body s rule: for_inc_le.induct)
  case (1 i n body s)
  show ?case
  proof (cases "i \<le> n")
    case True
    then have "[i..n] = i # [i + 1..n]"
      by (simp add: upto_rec1)
    moreover have "for_inc_le (i + 1) n body (step i s) = Some (fold step [i + 1..n] (step i s))"
      using True "1.prems" by (intro "1.IH") simp_all
    ultimately show ?thesis
      using True "1.prems" [of i s] by (subst for_inc_le.simps) simp
  next
    case False
    then show ?thesis
      by (simp add: for_inc_le.simps [of i])
  qed
qed

lemma filter_step2:
  assumes "i < n"
  shows "filter (\<lambda>j. even (j - i)) [i..n - 1] = i # filter (\<lambda>j. even (j - (i + 2))) [i + 2..n - 1]"
proof -
  have tl: "filter (\<lambda>j. even (j - i)) [i + 1..n - 1] = filter (\<lambda>j. even (j - i)) [i + 2..n - 1]"
  proof (cases "i + 1 \<le> n - 1")
    case True
    then have "[i + 1..n - 1] = (i + 1) # [i + 2..n - 1]"
      using upto_rec1 [of "i + 1" "n - 1"] by (simp add: add.commute)
    then show ?thesis by simp
  next
    case False
    then show ?thesis by simp
  qed
  from assms have "[i..n - 1] = i # [i + 1..n - 1]"
    by (simp add: upto_rec1)
  then show ?thesis
    using tl by simp
qed

lemma for_inc2_Some:
  assumes "\<And>i s. body i s = Some (step i s)"
  shows "for_inc2 i n body s = Some (fold step (filter (\<lambda>j. even (j - i)) [i..n - 1]) s)"
  using assms
proof (induction i n body s rule: for_inc2.induct)
  case (1 i n body s)
  show ?case
  proof (cases "i < n")
    case True
    have "for_inc2 (i + 2) n body (step i s)
        = Some (fold step (filter (\<lambda>j. even (j - (i + 2))) [i + 2..n - 1]) (step i s))"
      using True "1.prems" by (intro "1.IH") simp_all
    then show ?thesis
      using True "1.prems" [of i s] filter_step2 [OF True]
      by (subst for_inc2.simps) simp
  next
    case False
    then show ?thesis
      by (simp add: for_inc2.simps [of i])
  qed
qed

lemma upto_shift: "map (\<lambda>i. i + 1) [0..n - 1] = [1..n]"
  by (rule nth_equalityI) simp_all

text \<open>
  A loop that adds to \<open>sum\<close> a term made from one call of the integrand leaves the
  terms added from left to right, and the arguments of the calls appended to the trace.
  A loop of Monte Carlo integration moreover consumes one value of \<open>rand()\<close> for each
  index.
\<close>

lemma fold_calls:
  "fold (\<lambda>i (sum, w). (sum + h i (g (pt i)), w\<lparr>evals := evals w @ [pt i]\<rparr>)) xs (s, w)
     = (sum_from s (map (\<lambda>i. h i (g (pt i))) xs), w\<lparr>evals := evals w @ map pt xs\<rparr>)"
  by (induction xs arbitrary: s w) (simp_all add: sum_from_def)

lemma for_inc_calls:
  "for_inc i n (\<lambda>i (sum, w). do {
       (y, w) \<leftarrow> call (Some g) (pt i) w;
       Some (sum + h i y, w) }) (s, w)
     = Some (sum_from s (map (\<lambda>i. h i (g (pt i))) [i..n - 1]),
             w\<lparr>evals := evals w @ map pt [i..n - 1]\<rparr>)"
proof -
  have "for_inc i n (\<lambda>i (sum, w). do {
       (y, w) \<leftarrow> call (Some g) (pt i) w;
       Some (sum + h i y, w) }) (s, w)
     = Some (fold (\<lambda>i (sum, w). (sum + h i (g (pt i)), w\<lparr>evals := evals w @ [pt i]\<rparr>))
               [i..n - 1] (s, w))"
    by (rule for_inc_Some) (simp add: call_def split_def)
  then show ?thesis
    by (simp add: fold_calls)
qed

lemma for_inc_le_calls:
  "for_inc_le i n (\<lambda>i (sum, w). do {
       (y, w) \<leftarrow> call (Some g) (pt i) w;
       Some (sum + h i y, w) }) (s, w)
     = Some (sum_from s (map (\<lambda>i. h i (g (pt i))) [i..n]),
             w\<lparr>evals := evals w @ map pt [i..n]\<rparr>)"
proof -
  have "for_inc_le i n (\<lambda>i (sum, w). do {
       (y, w) \<leftarrow> call (Some g) (pt i) w;
       Some (sum + h i y, w) }) (s, w)
     = Some (fold (\<lambda>i (sum, w). (sum + h i (g (pt i)), w\<lparr>evals := evals w @ [pt i]\<rparr>))
               [i..n] (s, w))"
    by (rule for_inc_le_Some) (simp add: call_def split_def)
  then show ?thesis
    by (simp add: fold_calls)
qed

lemma for_inc2_calls:
  "for_inc2 i n (\<lambda>i (sum, w). do {
       (y, w) \<leftarrow> call (Some g) (pt i) w;
       Some (sum + h i y, w) }) (s, w)
     = Some (sum_from s (map (\<lambda>i. h i (g (pt i))) (filter (\<lambda>j. even (j - i)) [i..n - 1])),
             w\<lparr>evals := evals w @ map pt (filter (\<lambda>j. even (j - i)) [i..n - 1])\<rparr>)"
proof -
  have "for_inc2 i n (\<lambda>i (sum, w). do {
       (y, w) \<leftarrow> call (Some g) (pt i) w;
       Some (sum + h i y, w) }) (s, w)
     = Some (fold (\<lambda>i (sum, w). (sum + h i (g (pt i)), w\<lparr>evals := evals w @ [pt i]\<rparr>))
               (filter (\<lambda>j. even (j - i)) [i..n - 1]) (s, w))"
    by (rule for_inc2_Some) (simp add: call_def split_def)
  then show ?thesis
    by (simp add: fold_calls)
qed

lemma for_inc_calls_if:
  "for_inc i n (\<lambda>i (sum, w).
       if t i then do { (y, w) \<leftarrow> call (Some g) (pt i) w; Some (sum + h1 y, w) }
       else do { (y, w) \<leftarrow> call (Some g) (pt i) w; Some (sum + h2 y, w) }) (s, w)
     = Some (sum_from s (map (\<lambda>i. (if t i then h1 (g (pt i)) else h2 (g (pt i)))) [i..n - 1]),
             w\<lparr>evals := evals w @ map pt [i..n - 1]\<rparr>)"
proof -
  have "for_inc i n (\<lambda>i (sum, w).
       if t i then do { (y, w) \<leftarrow> call (Some g) (pt i) w; Some (sum + h1 y, w) }
       else do { (y, w) \<leftarrow> call (Some g) (pt i) w; Some (sum + h2 y, w) }) (s, w)
     = Some (fold (\<lambda>i (sum, w). (sum + (if t i then h1 (g (pt i)) else h2 (g (pt i))),
                                  w\<lparr>evals := evals w @ [pt i]\<rparr>))
               [i..n - 1] (s, w))"
    by (rule for_inc_Some) (simp add: call_def split_def)
  then show ?thesis
    by (simp add: fold_calls [where h = "\<lambda>i y. if t i then h1 y else h2 y"])
qed

lemma fold_draws:
  "fold (\<lambda>i (sum, w). (sum + g (pt (rng w 0)),
         w\<lparr>rng := (\<lambda>k. rng w (Suc k)), evals := evals w @ [pt (rng w 0)]\<rparr>)) xs (s, w)
     = (sum_from s (map (\<lambda>k. g (pt (rng w k))) [0..<length xs]),
        w\<lparr>evals := evals w @ map (\<lambda>k. pt (rng w k)) [0..<length xs],
          rng := (\<lambda>k. rng w (k + length xs))\<rparr>)"
proof (induction xs arbitrary: s w)
  case Nil
  show ?case by (simp add: sum_from_def)
next
  case (Cons x xs)
  show ?case
    by (simp add: Cons.IH sum_from_def map_upt_Suc del: upt_Suc)
qed

lemma for_inc_draws:
  "for_inc i n (\<lambda>i (sum, w).
       case rand w of (r, w) \<Rightarrow> do {
         (y, w) \<leftarrow> call (Some g) (pt r) w;
         Some (sum + y, w) }) (s, w)
     = Some (sum_from s (map (\<lambda>k. g (pt (rng w k))) [0..<length [i..n - 1]]),
        w\<lparr>evals := evals w @ map (\<lambda>k. pt (rng w k)) [0..<length [i..n - 1]],
          rng := (\<lambda>k. rng w (k + length [i..n - 1]))\<rparr>)"
proof -
  have "for_inc i n (\<lambda>i (sum, w).
       case rand w of (r, w) \<Rightarrow> do {
         (y, w) \<leftarrow> call (Some g) (pt r) w;
         Some (sum + y, w) }) (s, w)
     = Some (fold (\<lambda>i (sum, w). (sum + g (pt (rng w 0)),
         w\<lparr>rng := (\<lambda>k. rng w (Suc k)), evals := evals w @ [pt (rng w 0)]\<rparr>)) [i..n - 1] (s, w))"
    by (rule for_inc_Some) (simp add: call_def rand_def split_def)
  then show ?thesis
    by (simp only: fold_draws)
qed


section \<open>What each rule computes on a request that passes validation\<close>

text \<open>
  A request that passes validation is there, and so is its function.
\<close>

lemma valid_request:
  "\<not> is_invalid params \<Longrightarrow>
     \<exists>p g. params = Some p \<and> func p = Some g \<and> 0 < num_intervals p \<and>
           \<not> upper_bound p \<le> lower_bound p"
  by (cases params) (auto simp: is_invalid_def)

text \<open>
  On such a request every loop body returns, and each rule returns the value that its
  loops accumulate, scaled, having called the integrand at the points of its loops.
\<close>

lemma left_valid:
  assumes "\<not> is_invalid (Some p)" and "func p = Some g"
  shows "rectangle_left_endpoint c (Some p) w =
     Some (sum_from (lit c 0)
             (map (\<lambda>i. g (lower_bound p + to_double c i * dx_of c p)) [0..num_intervals p - 1])
           * dx_of c p,
           w\<lparr>evals := evals w
               @ map (\<lambda>i. lower_bound p + to_double c i * dx_of c p) [0..num_intervals p - 1]\<rparr>)"
  using assms
  by (simp add: rectangle_left_endpoint_def Let_def dx_of_def for_inc_calls [where h = "\<lambda>i y. y"])

lemma right_valid:
  assumes "\<not> is_invalid (Some p)" and "func p = Some g"
  shows "rectangle_right_endpoint c (Some p) w =
     Some (sum_from (lit c 0)
             (map (\<lambda>i. g (lower_bound p + to_double c i * dx_of c p)) [1..num_intervals p])
           * dx_of c p,
           w\<lparr>evals := evals w
               @ map (\<lambda>i. lower_bound p + to_double c i * dx_of c p) [1..num_intervals p]\<rparr>)"
  using assms
  by (simp add: rectangle_right_endpoint_def Let_def dx_of_def
        for_inc_le_calls [where h = "\<lambda>i y. y"])

lemma midpoint_valid:
  assumes "\<not> is_invalid (Some p)" and "func p = Some g"
  shows "rectangle_midpoint c (Some p) w =
     Some (sum_from (lit c 0)
             (map (\<lambda>i. g (lower_bound p + (to_double c i + lit c (1 / 2)) * dx_of c p))
                [0..num_intervals p - 1])
           * dx_of c p,
           w\<lparr>evals := evals w
               @ map (\<lambda>i. lower_bound p + (to_double c i + lit c (1 / 2)) * dx_of c p)
                   [0..num_intervals p - 1]\<rparr>)"
  using assms
  by (simp add: rectangle_midpoint_def Let_def dx_of_def for_inc_calls [where h = "\<lambda>i y. y"])

lemma trapezoidal_valid:
  assumes "\<not> is_invalid (Some p)" and "func p = Some g"
  shows "trapezoidal_rule c (Some p) w =
     Some (sum_from (lit c (1 / 2) * (g (lower_bound p) + g (upper_bound p)))
             (map (\<lambda>i. g (lower_bound p + to_double c i * dx_of c p)) [1..num_intervals p - 1])
           * dx_of c p,
           w\<lparr>evals := evals w @ [lower_bound p, upper_bound p]
               @ map (\<lambda>i. lower_bound p + to_double c i * dx_of c p) [1..num_intervals p - 1]\<rparr>)"
  using assms
  by (simp add: trapezoidal_rule_def Let_def dx_of_def for_inc_calls [where h = "\<lambda>i y. y"])
     (simp add: call_def)

lemma simpsons_1_3_sum_eq:
  "simpsons_1_3_sum c (Some g) a b dx n w =
     Some (sum_from
             (sum_from (g a + g b)
                (map (\<lambda>i. lit c 4 * g (a + to_double c i * dx)) (filter odd [1..n - 1])))
             (map (\<lambda>i. lit c 2 * g (a + to_double c i * dx)) (filter even [2..n - 2])),
           w\<lparr>evals := evals w @ [a, b]
               @ map (\<lambda>i. a + to_double c i * dx) (filter odd [1..n - 1])
               @ map (\<lambda>i. a + to_double c i * dx) (filter even [2..n - 2])\<rparr>)"
  by (simp add: simpsons_1_3_sum_def for_inc2_calls) (simp add: call_def)

lemma simpsons_1_3_valid:
  assumes "\<not> is_invalid (Some p)" and "func p = Some g" and "even (num_intervals p)"
  shows "simpsons_1_3_rule c (Some p) w =
     Some (sum_from
             (sum_from (g (lower_bound p) + g (upper_bound p))
                (map (\<lambda>i. lit c 4 * g (lower_bound p + to_double c i * dx_of c p))
                   (filter odd [1..num_intervals p - 1])))
             (map (\<lambda>i. lit c 2 * g (lower_bound p + to_double c i * dx_of c p))
                (filter even [2..num_intervals p - 2]))
           * dx_of c p / lit c 3,
           w\<lparr>evals := evals w @ [lower_bound p, upper_bound p]
               @ map (\<lambda>i. lower_bound p + to_double c i * dx_of c p)
                   (filter odd [1..num_intervals p - 1])
               @ map (\<lambda>i. lower_bound p + to_double c i * dx_of c p)
                   (filter even [2..num_intervals p - 2])\<rparr>)"
  using assms
  by (simp add: simpsons_1_3_rule_def Let_def dx_of_def simpsons_1_3_sum_eq)

lemma simpsons_3_8_valid:
  assumes "\<not> is_invalid (Some p)" and "func p = Some g" and "3 dvd num_intervals p"
  shows "simpsons_3_8_rule c (Some p) w =
     Some (sum_from (g (lower_bound p) + g (upper_bound p))
             (map (\<lambda>i. (if 3 dvd i then lit c 2 * g (lower_bound p + to_double c i * dx_of c p)
                        else lit c 3 * g (lower_bound p + to_double c i * dx_of c p)))
                [1..num_intervals p - 1])
           * dx_of c p * lit c 3 / lit c 8,
           w\<lparr>evals := evals w @ [lower_bound p, upper_bound p]
               @ map (\<lambda>i. lower_bound p + to_double c i * dx_of c p) [1..num_intervals p - 1]\<rparr>)"
  using assms
  by (simp add: simpsons_3_8_rule_def Let_def dx_of_def for_inc_calls_if dvd_eq_mod_eq_0
        cong: if_cong)
     (simp add: call_def)

lemma monte_carlo_valid:
  assumes "\<not> is_invalid (Some p)" and "func p = Some g"
  shows "monte_carlo_integration c (Some p) w =
     Some (sum_from (lit c 0)
             (map (\<lambda>k. g (lower_bound p + to_double c (rng w k) / to_double c (RAND_MAX c)
                            * (upper_bound p - lower_bound p)))
                [0..<nat (num_intervals p)])
           / to_double c (num_intervals p) * (upper_bound p - lower_bound p),
           w\<lparr>evals := evals w
               @ map (\<lambda>k. lower_bound p + to_double c (rng w k) / to_double c (RAND_MAX c)
                            * (upper_bound p - lower_bound p))
                   [0..<nat (num_intervals p)],
             rng := (\<lambda>k. rng w (k + nat (num_intervals p)))\<rparr>)"
  using assms
  by (simp add: monte_carlo_integration_def Let_def for_inc_draws del: upt_Suc)

text \<open>
  The two further tests of Simpson's rules.
\<close>

lemma simpsons_1_3_odd:
  "\<not> is_invalid (Some p) \<Longrightarrow> odd (num_intervals p) \<Longrightarrow>
     simpsons_1_3_rule c (Some p) w = Some (NAN c, w)"
  by (simp add: simpsons_1_3_rule_def odd_iff_mod_2_eq_one)

lemma simpsons_3_8_indivisible:
  "\<not> is_invalid (Some p) \<Longrightarrow> \<not> 3 dvd num_intervals p \<Longrightarrow>
     simpsons_3_8_rule c (Some p) w = Some (NAN c, w)"
  by (simp add: simpsons_3_8_rule_def dvd_eq_mod_eq_0)


section \<open>The interior points of Simpson's 1/3 rule\<close>

text \<open>
  For an even \<open>n\<close> the odd indices of \<open>1..n-1\<close> and the even indices of \<open>2..n-2\<close>
  are the indices \<open>1..n-1\<close>, each once; there are \<open>n / 2\<close> of the former and
  \<open>n / 2 - 1\<close> of the latter.
\<close>

lemma interior_indices:
  assumes "even n"
  shows "mset (filter odd [1..n - 1] @ filter even [2..n - 2]) = mset [1..n - 1]"
proof -
  have "filter even [1..n - 1] = filter even [2..n - 2]"
  proof (cases "2 < n")
    case True
    then have "[1..n - 1] = 1 # [2..n - 1]"
      using upto_rec1 [of 1 "n - 1"] by simp
    moreover from True have "[2..n - 1] = [2..n - 1 - 1] @ [n - 1]"
      by (intro upto_rec2) simp
    ultimately show ?thesis
      using assms by simp
  next
    case False
    with assms have "n = 2 \<or> n \<le> 0"
      by presburger
    then show ?thesis by auto
  qed
  then have "mset (filter odd [1..n - 1] @ filter even [2..n - 2])
      = mset (filter odd [1..n - 1]) + mset (filter (\<lambda>i. \<not> odd i) [1..n - 1])"
    by simp
  also have "\<dots> = mset [1..n - 1]"
    by (simp only: mset_filter multiset_partition [symmetric])
  finally show ?thesis .
qed

lemma length_filter_upto:
  "length (filter P [i..j]) = card {k. i \<le> k \<and> k \<le> j \<and> P k}"
proof -
  have "set (filter P [i..j]) = {k. i \<le> k \<and> k \<le> j \<and> P k}"
    by auto
  moreover have "distinct (filter P [i..j])"
    by simp
  ultimately show ?thesis
    using distinct_card [of "filter P [i..j]"] by simp
qed

lemma card_odd_interior:
  assumes "0 \<le> m"
  shows "card {i::int. 1 \<le> i \<and> i \<le> 2 * m - 1 \<and> odd i} = nat m"
proof -
  have "{i::int. 1 \<le> i \<and> i \<le> 2 * m - 1 \<and> odd i} = (\<lambda>k. 2 * k + 1) ` {0..m - 1}"
  proof (intro set_eqI iffI)
    fix i assume "i \<in> {i::int. 1 \<le> i \<and> i \<le> 2 * m - 1 \<and> odd i}"
    then obtain k where "i = 2 * k + 1" and "0 \<le> k" and "k \<le> m - 1"
      by (auto elim!: oddE)
    then show "i \<in> (\<lambda>k. 2 * k + 1) ` {0..m - 1}"
      by simp
  next
    fix i assume "i \<in> (\<lambda>k. 2 * k + 1) ` {0..m - 1}"
    then show "i \<in> {i::int. 1 \<le> i \<and> i \<le> 2 * m - 1 \<and> odd i}"
      by auto
  qed
  moreover have "inj_on (\<lambda>k::int. 2 * k + 1) {0..m - 1}"
    by (simp add: inj_on_def)
  ultimately show ?thesis
    using assms by (simp add: card_image)
qed

lemma card_even_interior:
  assumes "1 \<le> m"
  shows "card {i::int. 2 \<le> i \<and> i \<le> 2 * m - 2 \<and> even i} = nat (m - 1)"
proof -
  have "{i::int. 2 \<le> i \<and> i \<le> 2 * m - 2 \<and> even i} = (\<lambda>k. 2 * k) ` {1..m - 1}"
  proof (intro set_eqI iffI)
    fix i assume "i \<in> {i::int. 2 \<le> i \<and> i \<le> 2 * m - 2 \<and> even i}"
    then obtain k where "i = 2 * k" and "1 \<le> k" and "k \<le> m - 1"
      by (auto elim!: evenE)
    then show "i \<in> (\<lambda>k. 2 * k) ` {1..m - 1}"
      by simp
  next
    fix i assume "i \<in> (\<lambda>k. 2 * k) ` {1..m - 1}"
    then show "i \<in> {i::int. 2 \<le> i \<and> i \<le> 2 * m - 2 \<and> even i}"
      by auto
  qed
  moreover have "inj_on (\<lambda>k::int. 2 * k) {1..m - 1}"
    by (simp add: inj_on_def)
  ultimately show ?thesis
    using assms by (simp add: card_image)
qed

lemma interior_count:
  assumes "even n" and "0 < n"
  shows "length (filter odd [1..n - 1]) + length (filter even [2..n - 2]) = nat n - 1"
proof -
  have "length (filter odd [1..n - 1] @ filter even [2..n - 2]) = length [1..n - 1]"
    using interior_indices [OF assms(1)] by (metis size_mset)
  then show ?thesis
    using assms(2) by (simp add: nat_diff_distrib)
qed

lemma simpsons_1_3_trace_length:
  assumes "even n" and "0 < n"
  shows "length (tr @ [a, b] @ map g (filter odd [1..n - 1]) @ map g (filter even [2..n - 2]))
           = length tr + nat n + 1"
proof -
  have "length (tr @ [a, b] @ map g (filter odd [1..n - 1]) @ map g (filter even [2..n - 2]))
      = length tr + 2 + (length (filter odd [1..n - 1]) + length (filter even [2..n - 2]))"
    by simp
  also have "\<dots> = length tr + nat n + 1"
    unfolding interior_count [OF assms] using assms(2) by simp
  finally show ?thesis .
qed

lemma simpsons_1_3_calls:
  assumes "even n" and "0 < n"
  shows "length (evals (w\<lparr>evals := evals w @ [a, b] @ map g (filter odd [1..n - 1])
            @ map g (filter even [2..n - 2])\<rparr>)) = length (evals w) + nat n + 1"
  using simpsons_1_3_trace_length [OF assms, of "evals w" a b g] by simp

lemma simpsons_3_8_calls:
  assumes "0 < n"
  shows "length (evals (w\<lparr>evals := evals w @ [a, b] @ map g [1..n - 1]\<rparr>))
           = length (evals w) + nat n + 1"
  using assms by simp

lemma sum_from_const: "sum_from (Val s) (map (\<lambda>i. Val v) xs) = Val (s + v * of_nat (length xs))"
  by (induction xs arbitrary: s) (simp_all add: sum_from_def algebra_simps)


section \<open>Every deterministic rule returns, with a result that the world does not influence\<close>

lemma left_result:
  "\<exists>r. \<forall>w. \<exists>w'. rectangle_left_endpoint c params w = Some (r, w')"
proof (cases "is_invalid params")
  case True
  then show ?thesis
    by (simp add: rectangle_left_endpoint_def)
next
  case False
  then obtain p g where "params = Some p" and "func p = Some g"
    using valid_request by blast
  with False show ?thesis
    using left_valid [of p g c] by blast
qed

lemma right_result:
  "\<exists>r. \<forall>w. \<exists>w'. rectangle_right_endpoint c params w = Some (r, w')"
proof (cases "is_invalid params")
  case True
  then show ?thesis
    by (simp add: rectangle_right_endpoint_def)
next
  case False
  then obtain p g where "params = Some p" and "func p = Some g"
    using valid_request by blast
  with False show ?thesis
    using right_valid [of p g c] by blast
qed

lemma midpoint_result:
  "\<exists>r. \<forall>w. \<exists>w'. rectangle_midpoint c params w = Some (r, w')"
proof (cases "is_invalid params")
  case True
  then show ?thesis
    by (simp add: rectangle_midpoint_def)
next
  case False
  then obtain p g where "params = Some p" and "func p = Some g"
    using valid_request by blast
  with False show ?thesis
    using midpoint_valid [of p g c] by blast
qed

lemma trapezoidal_result:
  "\<exists>r. \<forall>w. \<exists>w'. trapezoidal_rule c params w = Some (r, w')"
proof (cases "is_invalid params")
  case True
  then show ?thesis
    by (simp add: trapezoidal_rule_def)
next
  case False
  then obtain p g where "params = Some p" and "func p = Some g"
    using valid_request by blast
  with False show ?thesis
    using trapezoidal_valid [of p g c] by blast
qed

lemma simpsons_1_3_result:
  "\<exists>r. \<forall>w. \<exists>w'. simpsons_1_3_rule c params w = Some (r, w')"
proof (cases "is_invalid params")
  case True
  then show ?thesis
    by (simp add: simpsons_1_3_rule_def)
next
  case False
  then obtain p g where p: "params = Some p" and g: "func p = Some g"
    using valid_request by blast
  show ?thesis
  proof (cases "even (num_intervals p)")
    case True
    with False p g show ?thesis
      using simpsons_1_3_valid [of p g c] by blast
  next
    case odd: False
    with False p show ?thesis
      using simpsons_1_3_odd [of p c] by blast
  qed
qed

lemma simpsons_3_8_result:
  "\<exists>r. \<forall>w. \<exists>w'. simpsons_3_8_rule c params w = Some (r, w')"
proof (cases "is_invalid params")
  case True
  then show ?thesis
    by (simp add: simpsons_3_8_rule_def)
next
  case False
  then obtain p g where p: "params = Some p" and g: "func p = Some g"
    using valid_request by blast
  show ?thesis
  proof (cases "3 dvd num_intervals p")
    case True
    with False p g show ?thesis
      using simpsons_3_8_valid [of p g c] by blast
  next
    case indivisible: False
    with False p show ?thesis
      using simpsons_3_8_indivisible [of p c] by blast
  qed
qed

lemma same_result_in_any_world:
  assumes "\<exists>r. \<forall>w. \<exists>w'. method params w = Some (r, w')"
  shows "map_option fst (method params w') = map_option fst (method params w)"
    and "\<exists>r. call_twice method params w = Some (r, r)"
proof -
  from assms obtain r where r: "\<And>w. \<exists>w'. method params w = Some (r, w')"
    by blast
  from r [of w] r [of w'] show "map_option fst (method params w') = map_option fst (method params w)"
    by auto
  from r [of w] obtain w1 where w1: "method params w = Some (r, w1)"
    by blast
  from r [of w1] obtain w2 where w2: "method params w1 = Some (r, w2)"
    by blast
  from w1 w2 have "call_twice method params w = Some (r, r)"
    by (simp add: call_twice_def)
  then show "\<exists>r. call_twice method params w = Some (r, r)" ..
qed

lemma call_twice_first:
  "call_twice method params w = Some (r1, r2) \<Longrightarrow> map_option fst (method params w) = Some r1"
  by (auto simp: call_twice_def split: bind_splits)

lemmas rule_defs = rectangle_left_endpoint_def rectangle_right_endpoint_def rectangle_midpoint_def
  trapezoidal_rule_def simpsons_1_3_rule_def simpsons_3_8_rule_def monte_carlo_integration_def


section \<open>Requests that are rejected\<close>

text \<open>
  C1. For each of the seven rules: when the request's function is absent, or its interval
  count is not positive, or its upper bound is at most its lower bound, the rule returns
  the value of \<open>NAN\<close> and leaves the world as it found it. In particular \<open>evals\<close>
  is unchanged, so the integrand has not been called, not even once.
\<close>

theorem invalid_request_returns_nan:
  assumes "func p = None \<or> num_intervals p \<le> 0 \<or> upper_bound p \<le> lower_bound p"
  shows "rectangle_left_endpoint c (Some p) w = Some (NAN c, w)
       \<and> rectangle_right_endpoint c (Some p) w = Some (NAN c, w)
       \<and> rectangle_midpoint c (Some p) w = Some (NAN c, w)
       \<and> trapezoidal_rule c (Some p) w = Some (NAN c, w)
       \<and> simpsons_1_3_rule c (Some p) w = Some (NAN c, w)
       \<and> simpsons_3_8_rule c (Some p) w = Some (NAN c, w)
       \<and> monte_carlo_integration c (Some p) w = Some (NAN c, w)"
proof -
  from assms have "is_invalid (Some p)"
    by (simp add: is_invalid_def)
  then show ?thesis
    by (simp add: rule_defs)
qed

theorem invalid_request_returns_nan_witness:
  "map (\<lambda>m. m (Some (quadratic_problem 0)) w0) (methods exact_env) = replicate 7 (Some (NaN, w0))
   \<and> map (\<lambda>m. m (Some ((quadratic_problem 4)\<lparr>func := None\<rparr>)) w0) (methods exact_env)
        = replicate 7 (Some (NaN, w0))
   \<and> map (\<lambda>m. m (Some ((quadratic_problem 4)\<lparr>upper_bound := Val 0\<rparr>)) w0) (methods exact_env)
        = replicate 7 (Some (NaN, w0))"
  using invalid_request_returns_nan [of "quadratic_problem 0" exact_env w0]
    invalid_request_returns_nan [of "(quadratic_problem 4)\<lparr>func := None\<rparr>" exact_env w0]
    invalid_request_returns_nan [of "(quadratic_problem 4)\<lparr>upper_bound := Val 0\<rparr>" exact_env w0]
  by (simp add: quadratic_problem_def methods_def eval_nat_numeral exact_env_def)

text \<open>
  C10. For each of the seven rules, a null request pointer also yields the value of
  \<open>NAN\<close>, with the world unchanged, and not the undefined behaviour \<open>None\<close> that
  reading a member of the null request would be: \<open>is_invalid\<close> answers for a missing
  request, before any member is read, as it does for a malformed one.
\<close>

theorem null_request_returns_nan:
  "rectangle_left_endpoint c None w = Some (NAN c, w)
   \<and> rectangle_right_endpoint c None w = Some (NAN c, w)
   \<and> rectangle_midpoint c None w = Some (NAN c, w)
   \<and> trapezoidal_rule c None w = Some (NAN c, w)
   \<and> simpsons_1_3_rule c None w = Some (NAN c, w)
   \<and> simpsons_3_8_rule c None w = Some (NAN c, w)
   \<and> monte_carlo_integration c None w = Some (NAN c, w)"
  by (simp add: rule_defs is_invalid_def)

theorem null_request_returns_nan_witness:
  "map (\<lambda>m. m None w0) (methods exact_env) = replicate 7 (Some (NaN, w0))"
  using null_request_returns_nan [of exact_env w0]
  by (simp add: methods_def eval_nat_numeral exact_env_def)


section \<open>The rectangle rules\<close>

text \<open>
  C5. On a request that passes validation, with \<open>n\<close> intervals of width
  \<open>dx = (upper - lower) / n\<close>: the left rule returns the sum of
  \<open>f (lower + i * dx)\<close> over \<open>i = 0..n-1\<close> multiplied by \<open>dx\<close>, the right rule the
  sum of \<open>f (lower + (i + 1) * dx)\<close> multiplied by \<open>dx\<close>, the midpoint rule the sum of
  \<open>f (lower + (i + 0.5) * dx)\<close> multiplied by \<open>dx\<close>. The sum is accumulated from
  \<open>0.0\<close> in the order of the subintervals; every operation is the one the source
  performs, in whatever arithmetic \<open>double\<close> has. Each rule calls the integrand at
  exactly these points, in this order, and the list \<open>[0..n-1]\<close> of subintervals has
  \<open>n\<close> elements: each rule sums exactly \<open>n\<close> evaluations.
\<close>

theorem rectangle_rules_sum_n_evaluations:
  fixes c :: "('d::{plus,minus,times,inverse,ord}) env"
  assumes "\<not> is_invalid (Some p)" and "func p = Some f"
  defines "a \<equiv> lower_bound p" and "n \<equiv> num_intervals p" and "dx \<equiv> dx_of c p"
  shows "rectangle_left_endpoint c (Some p) w =
           Some (sum_from (lit c 0) (map (\<lambda>i. f (a + to_double c i * dx)) [0..n - 1]) * dx,
                 w\<lparr>evals := evals w @ map (\<lambda>i. a + to_double c i * dx) [0..n - 1]\<rparr>)
       \<and> rectangle_right_endpoint c (Some p) w =
           Some (sum_from (lit c 0) (map (\<lambda>i. f (a + to_double c (i + 1) * dx)) [0..n - 1]) * dx,
                 w\<lparr>evals := evals w @ map (\<lambda>i. a + to_double c (i + 1) * dx) [0..n - 1]\<rparr>)
       \<and> rectangle_midpoint c (Some p) w =
           Some (sum_from (lit c 0)
                   (map (\<lambda>i. f (a + (to_double c i + lit c (1 / 2)) * dx)) [0..n - 1]) * dx,
                 w\<lparr>evals := evals w
                     @ map (\<lambda>i. a + (to_double c i + lit c (1 / 2)) * dx) [0..n - 1]\<rparr>)
       \<and> int (length [0..n - 1]) = n"
proof -
  from assms(1) have pos: "0 < n"
    by (simp add: is_invalid_def n_def)
  have shift: "map (\<lambda>i. F (i + 1)) [0..n - 1] = map F [1..n]" for F :: "int \<Rightarrow> 'b"
    using upto_shift [of n] by (metis (no_types, lifting) map_map o_def map_eq_conv)
  have right: "rectangle_right_endpoint c (Some p) w =
           Some (sum_from (lit c 0) (map (\<lambda>i. f (a + to_double c (i + 1) * dx)) [0..n - 1]) * dx,
                 w\<lparr>evals := evals w @ map (\<lambda>i. a + to_double c (i + 1) * dx) [0..n - 1]\<rparr>)"
    unfolding shift [of "\<lambda>i. f (a + to_double c i * dx)"] shift [of "\<lambda>i. a + to_double c i * dx"]
    unfolding a_def n_def dx_def
    by (rule right_valid [OF assms(1,2)])
  show ?thesis
    using pos left_valid [OF assms(1,2), of c w] midpoint_valid [OF assms(1,2), of c w] right
    by (simp add: a_def n_def dx_def)
qed

theorem rectangle_rules_sum_n_evaluations_witness:
  "\<not> is_invalid (Some (quadratic_problem 4))
   \<and> rectangle_left_endpoint exact_env (Some (quadratic_problem 4)) w0 =
        Some (Val (7 / 32), w0\<lparr>evals := [Val 0, Val (1 / 4), Val (1 / 2), Val (3 / 4)]\<rparr>)
   \<and> rectangle_right_endpoint exact_env (Some (quadratic_problem 4)) w0 =
        Some (Val (15 / 32), w0\<lparr>evals := [Val (1 / 4), Val (1 / 2), Val (3 / 4), Val 1]\<rparr>)
   \<and> rectangle_midpoint exact_env (Some (quadratic_problem 4)) w0 =
        Some (Val (21 / 64), w0\<lparr>evals := [Val (1 / 8), Val (3 / 8), Val (5 / 8), Val (7 / 8)]\<rparr>)"
proof -
  have valid: "\<not> is_invalid (Some (quadratic_problem 4))"
    and f: "func (quadratic_problem 4) = Some f_quadratic"
    by (simp_all add: is_invalid_def quadratic_problem_def)
  have pts: "[0..3::int] = [0, 1, 2, 3]"
    by (simp add: upto_rec1)
  show ?thesis
    using rectangle_rules_sum_n_evaluations [OF valid f, of exact_env w0]
    by (simp add: is_invalid_def dx_of_def pts quadratic_problem_def w0_def exact_env_def
          f_quadratic_def sum_from_def of_rat_divide)
qed


section \<open>The trapezoidal rule\<close>

text \<open>
  C6. On a request that passes validation, with \<open>n\<close> intervals of width
  \<open>dx = (upper - lower) / n\<close>, the trapezoidal rule returns a total multiplied by
  \<open>dx\<close>. The total starts as \<open>0.5 * (f lower + f upper)\<close>, the two endpoint values
  added and their sum halved, and receives the \<open>n - 1\<close> interior values
  \<open>f (lower + i * dx)\<close>, \<open>i = 1..n-1\<close>, one after the other, each with weight 1. The
  integrand is called at the two endpoints and the \<open>n - 1\<close> interior points, and
  validation is the only precondition.
\<close>

theorem trapezoidal_rule_formula:
  fixes c :: "('d::{plus,minus,times,inverse,ord}) env"
  assumes "\<not> is_invalid (Some p)" and "func p = Some f"
  defines "a \<equiv> lower_bound p" and "b \<equiv> upper_bound p" and "n \<equiv> num_intervals p"
    and "dx \<equiv> dx_of c p"
  shows "trapezoidal_rule c (Some p) w =
           Some (sum_from (lit c (1 / 2) * (f a + f b))
                   (map (\<lambda>i. f (a + to_double c i * dx)) [1..n - 1]) * dx,
                 w\<lparr>evals := evals w @ [a, b] @ map (\<lambda>i. a + to_double c i * dx) [1..n - 1]\<rparr>)
       \<and> int (length [1..n - 1]) = n - 1"
proof -
  from assms(1) have pos: "0 < n"
    by (simp add: is_invalid_def n_def)
  then have "int (length [1..n - 1]) = n - 1"
    by simp
  then show ?thesis
    unfolding a_def b_def n_def dx_def
    using trapezoidal_valid [OF assms(1,2), of c w] by simp
qed

theorem trapezoidal_rule_formula_witness:
  "\<not> is_invalid (Some (quadratic_problem 4))
   \<and> trapezoidal_rule exact_env (Some (quadratic_problem 4)) w0 =
        Some (Val (11 / 32), w0\<lparr>evals := [Val 0, Val 1, Val (1 / 4), Val (1 / 2), Val (3 / 4)]\<rparr>)"
proof -
  have valid: "\<not> is_invalid (Some (quadratic_problem 4))"
    and f: "func (quadratic_problem 4) = Some f_quadratic"
    by (simp_all add: is_invalid_def quadratic_problem_def)
  have pts: "[1..3::int] = [1, 2, 3]"
    by (simp add: upto_rec1)
  show ?thesis
    using trapezoidal_rule_formula [OF valid f, of exact_env w0]
    by (simp add: is_invalid_def dx_of_def pts quadratic_problem_def w0_def exact_env_def
          f_quadratic_def sum_from_def of_rat_divide)
qed

text \<open>
  C6 as stated weights each endpoint value by 0.5 before adding them. That is another
  number when \<open>f lower + f upper\<close> overflows: for the integrand constantly
  \<open>2 ^ 1023\<close> on \<open>[0, 1]\<close> with one interval the rule returns infinity, whereas
  \<open>dx\<close> times \<open>0.5 * f lower + 0.5 * f upper\<close> is \<open>2 ^ 1023\<close>.
\<close>

theorem trapezoidal_halves_not_distributed:
  "\<not> is_invalid (Some (huge_on_unit_interval 1))
   \<and> trapezoidal_rule wide_env (Some (huge_on_unit_interval 1)) w0
        = Some (PInf, w0\<lparr>evals := [Fin 0, Fin 1]\<rparr>)
   \<and> dx_of wide_env (huge_on_unit_interval 1)
        * sum_from (lit wide_env (1 / 2) * Fin (2 ^ 1023) + lit wide_env (1 / 2) * Fin (2 ^ 1023))
            (map (\<lambda>i. Fin (2 ^ 1023)) [1..1 - 1])
        = Fin (2 ^ 1023)
   \<and> PInf \<noteq> Fin (2 ^ 1023)"
  by (simp add: trapezoidal_rule_def is_invalid_def huge_on_unit_interval_def wide_env_def
        call_def for_inc.simps clip_def minus_wide_def w0_def dx_of_def sum_from_def of_rat_divide)


section \<open>Simpson's 1/3 rule\<close>

text \<open>
  C3. On a request that passes validation and whose interval count \<open>n\<close> is even,
  Simpson's 1/3 rule returns \<open>sum * dx / 3\<close>, where \<open>dx = (upper - lower) / n\<close> and
  \<open>sum\<close> is \<open>f lower + f upper\<close>, then \<open>4 * f (lower + i * dx)\<close> added for the odd
  \<open>i\<close> of \<open>1..n-1\<close>, then \<open>2 * f (lower + i * dx)\<close> added for the even \<open>i\<close> of
  \<open>2..n-2\<close>. The integrand is called at these points in this order, and the interior
  indices visited by the two loops together are \<open>1..n-1\<close>, each exactly once: no
  interior point is counted twice or omitted.
\<close>

theorem simpsons_1_3_rule_formula:
  fixes c :: "('d::{plus,minus,times,inverse,ord}) env"
  assumes "\<not> is_invalid (Some p)" and "func p = Some f" and "even (num_intervals p)"
  defines "a \<equiv> lower_bound p" and "b \<equiv> upper_bound p" and "n \<equiv> num_intervals p"
    and "dx \<equiv> dx_of c p"
  shows "simpsons_1_3_rule c (Some p) w =
           Some (sum_from
                   (sum_from (f a + f b)
                      (map (\<lambda>i. lit c 4 * f (a + to_double c i * dx)) (filter odd [1..n - 1])))
                   (map (\<lambda>i. lit c 2 * f (a + to_double c i * dx)) (filter even [2..n - 2]))
                 * dx / lit c 3,
                 w\<lparr>evals := evals w @ [a, b]
                     @ map (\<lambda>i. a + to_double c i * dx) (filter odd [1..n - 1])
                     @ map (\<lambda>i. a + to_double c i * dx) (filter even [2..n - 2])\<rparr>)
       \<and> mset (filter odd [1..n - 1] @ filter even [2..n - 2]) = mset [1..n - 1]"
  unfolding a_def b_def n_def dx_def
  using simpsons_1_3_valid [OF assms(1,2,3), of c w] interior_indices [OF assms(3)]
  by simp

theorem simpsons_1_3_rule_formula_witness:
  "\<not> is_invalid (Some (quadratic_problem_6 4)) \<and> even (num_intervals (quadratic_problem_6 4))
   \<and> simpsons_1_3_rule exact_env (Some (quadratic_problem_6 4)) w0 =
        Some (Val 72, w0\<lparr>evals := [Val 0, Val 6, Val (3 / 2), Val (9 / 2), Val 3]\<rparr>)
   \<and> mset (filter odd [1..3] @ filter even [2..2]) = mset [1..3::int]"
proof -
  have valid: "\<not> is_invalid (Some (quadratic_problem_6 4))"
    and f: "func (quadratic_problem_6 4) = Some f_quadratic"
    and n: "even (num_intervals (quadratic_problem_6 4))"
    by (simp_all add: is_invalid_def quadratic_problem_6_def)
  have pts: "[1..3::int] = [1, 2, 3]"
    by (simp add: upto_rec1)
  show ?thesis
    using simpsons_1_3_rule_formula [OF valid f n, of exact_env w0]
    by (simp add: is_invalid_def dx_of_def pts quadratic_problem_6_def w0_def exact_env_def
          f_quadratic_def sum_from_def)
qed

text \<open>
  C4. For every even positive \<open>n\<close>, the weights that Simpson's 1/3 rule applies (1 for
  each of the two endpoints, 4 for each odd interior index, 2 for each even interior
  index) add up to \<open>3 * n\<close>: the accumulated sum of the source for the integrand
  constantly 1 is \<open>3 * n\<close>, and so is the count in integers over the index lists of the
  two loops. It is the final division by 3 that brings the total to \<open>n\<close>.
\<close>

theorem simpsons_1_3_weights_sum:
  assumes "0 < n" and "even n"
  shows "map_option fst (simpsons_1_3_sum exact_env (Some (\<lambda>x. Val 1)) a b dx n w)
           = Some (Val (of_int (3 * n)))
       \<and> 1 + 1 + 4 * int (length (filter odd [1..n - 1])) + 2 * int (length (filter even [2..n - 2]))
           = 3 * n"
proof -
  from assms obtain m where n: "n = 2 * m" and m: "1 \<le> m"
    by (auto elim!: evenE)
  have lens: "length (filter odd [1..n - 1]) = nat m" "length (filter even [2..n - 2]) = nat (m - 1)"
    using m card_odd_interior [of m] card_even_interior [of m]
    by (simp_all add: length_filter_upto n)
  have "map_option fst (simpsons_1_3_sum exact_env (Some (\<lambda>x. Val 1)) a b dx n w)
      = Some (Val (1 + 1 + 4 * of_nat (nat m) + 2 * of_nat (nat (m - 1))))"
    unfolding simpsons_1_3_sum_eq
    by (simp add: exact_env_def sum_from_const lens)
  also have "\<dots> = Some (Val (of_int (3 * n)))"
    using m by (simp add: n)
  finally have "map_option fst (simpsons_1_3_sum exact_env (Some (\<lambda>x. Val 1)) a b dx n w)
      = Some (Val (of_int (3 * n)))" .
  moreover have "1 + 1 + 4 * int (length (filter odd [1..n - 1]))
      + 2 * int (length (filter even [2..n - 2])) = 3 * n"
    using m lens unfolding n by simp
  ultimately show ?thesis ..
qed

theorem simpsons_1_3_weights_sum_witness:
  "(0::int) < 4 \<and> even (4::int)
   \<and> map_option fst (simpsons_1_3_sum exact_env (Some (\<lambda>x. Val 1)) (Val 0) (Val 1) (Val (1 / 4)) 4 w0)
        = Some (Val 12)
   \<and> 1 + 1 + 4 * int (length (filter odd [1..3])) + 2 * int (length (filter even [2..2])) = 12"
  using simpsons_1_3_weights_sum [of 4 "Val 0" "Val 1" "Val (1 / 4)" w0]
  by simp

text \<open>
  C4 as stated (the weights add up to \<open>n\<close>) fails at \<open>n = 2\<close>: the weights are 1, 4
  and 1, and their sum is 6.
\<close>

theorem simpsons_1_3_weights_sum_is_not_n:
  "map_option fst (simpsons_1_3_sum exact_env (Some (\<lambda>x. Val 1)) (Val 0) (Val 1) (Val (1 / 2)) 2 w0)
     = Some (Val 6)
   \<and> map_option fst (simpsons_1_3_sum exact_env (Some (\<lambda>x. Val 1)) (Val 0) (Val 1) (Val (1 / 2)) 2 w0)
     \<noteq> Some (Val (of_int 2))
   \<and> 1 + 1 + 4 * int (length (filter odd [1..2 - 1])) + 2 * int (length (filter even [2..2 - 2])) = 6
   \<and> 1 + 1 + 4 * int (length (filter odd [1..2 - 1])) + 2 * int (length (filter even [2..2 - 2]))
        \<noteq> (2::int)"
  by (simp add: simpsons_1_3_sum_def for_inc2.simps call_def exact_env_def)


section \<open>Simpson's 3/8 rule\<close>

text \<open>
  C7. On a request that passes validation and whose interval count \<open>n\<close> is a multiple of
  3, Simpson's 3/8 rule returns \<open>sum * dx * 3 / 8\<close>, where
  \<open>dx = (upper - lower) / n\<close> and \<open>sum\<close> is \<open>f lower + f upper\<close> to which is
  added, for each \<open>i\<close> from 1 to \<open>n - 1\<close> in turn, the value \<open>f (lower + i * dx)\<close>
  with weight 2 when 3 divides \<open>i\<close> and weight 3 otherwise. The integrand is called at
  the two endpoints and then at the interior points in order.
\<close>

theorem simpsons_3_8_rule_formula:
  fixes c :: "('d::{plus,minus,times,inverse,ord}) env"
  assumes "\<not> is_invalid (Some p)" and "func p = Some f" and "3 dvd num_intervals p"
  defines "a \<equiv> lower_bound p" and "b \<equiv> upper_bound p" and "n \<equiv> num_intervals p"
    and "dx \<equiv> dx_of c p"
  shows "simpsons_3_8_rule c (Some p) w =
           Some (sum_from (f a + f b)
                   (map (\<lambda>i. (if 3 dvd i then lit c 2 else lit c 3) * f (a + to_double c i * dx))
                      [1..n - 1])
                 * dx * lit c 3 / lit c 8,
                 w\<lparr>evals := evals w @ [a, b] @ map (\<lambda>i. a + to_double c i * dx) [1..n - 1]\<rparr>)"
proof -
  have weight: "(if 3 dvd i then lit c 2 else lit c 3) * y
      = (if 3 dvd i then lit c 2 * y else lit c 3 * y)" for i :: int and y :: 'd
    by simp
  show ?thesis
    unfolding a_def b_def n_def dx_def weight
    by (rule simpsons_3_8_valid [OF assms(1,2,3)])
qed

theorem simpsons_3_8_rule_formula_witness:
  "\<not> is_invalid (Some (quadratic_problem_6 6)) \<and> 3 dvd num_intervals (quadratic_problem_6 6)
   \<and> simpsons_3_8_rule exact_env (Some (quadratic_problem_6 6)) w0 =
        Some (Val 72, w0\<lparr>evals := [Val 0, Val 6, Val 1, Val 2, Val 3, Val 4, Val 5]\<rparr>)"
proof -
  have valid: "\<not> is_invalid (Some (quadratic_problem_6 6))"
    and f: "func (quadratic_problem_6 6) = Some f_quadratic"
    and n: "3 dvd num_intervals (quadratic_problem_6 6)"
    by (simp_all add: is_invalid_def quadratic_problem_6_def)
  have pts: "[1..5::int] = [1, 2, 3, 4, 5]"
    by (simp add: upto_rec1)
  show ?thesis
    using simpsons_3_8_rule_formula [OF valid f n, of exact_env w0]
    by (simp add: is_invalid_def dx_of_def pts quadratic_problem_6_def w0_def exact_env_def
          f_quadratic_def sum_from_def)
qed


section \<open>The preconditions of Simpson's rules\<close>

text \<open>
  C2. On a request that passes validation: Simpson's 1/3 rule returns the value of
  \<open>NAN\<close>, without calling the integrand, when the interval count \<open>n\<close> is odd, and
  Simpson's 3/8 rule when \<open>n\<close> is not divisible by 3. In the remaining cases each
  rule proceeds: it calls the integrand \<open>n + 1\<close> times and returns its weighted
  sum, scaled. Whether that result is a number is a matter of the arithmetic, and it
  need not be one.
\<close>

theorem simpsons_preconditions:
  fixes c :: "('d::{plus,minus,times,inverse,ord}) env"
  assumes "\<not> is_invalid (Some p)" and "func p = Some f"
  defines "a \<equiv> lower_bound p" and "b \<equiv> upper_bound p" and "n \<equiv> num_intervals p"
    and "dx \<equiv> dx_of c p"
  shows "(odd n \<longrightarrow> simpsons_1_3_rule c (Some p) w = Some (NAN c, w))
       \<and> (\<not> 3 dvd n \<longrightarrow> simpsons_3_8_rule c (Some p) w = Some (NAN c, w))
       \<and> (even n \<longrightarrow>
            (\<exists>w'. simpsons_1_3_rule c (Some p) w =
               Some (sum_from
                       (sum_from (f a + f b)
                          (map (\<lambda>i. lit c 4 * f (a + to_double c i * dx)) (filter odd [1..n - 1])))
                       (map (\<lambda>i. lit c 2 * f (a + to_double c i * dx)) (filter even [2..n - 2]))
                     * dx / lit c 3, w')
               \<and> length (evals w') = length (evals w) + nat n + 1))
       \<and> (3 dvd n \<longrightarrow>
            (\<exists>w'. simpsons_3_8_rule c (Some p) w =
               Some (sum_from (f a + f b)
                       (map (\<lambda>i. (if 3 dvd i then lit c 2 * f (a + to_double c i * dx)
                                  else lit c 3 * f (a + to_double c i * dx))) [1..n - 1])
                     * dx * lit c 3 / lit c 8, w')
               \<and> length (evals w') = length (evals w) + nat n + 1))"
proof -
  from assms(1) have pos: "0 < n"
    by (simp add: is_invalid_def n_def)
  have "odd n \<longrightarrow> simpsons_1_3_rule c (Some p) w = Some (NAN c, w)"
    using simpsons_1_3_odd [OF assms(1)] by (simp add: n_def)
  moreover have "\<not> 3 dvd n \<longrightarrow> simpsons_3_8_rule c (Some p) w = Some (NAN c, w)"
    using simpsons_3_8_indivisible [OF assms(1)] by (simp add: n_def)
  moreover have "even n \<longrightarrow>
            (\<exists>w'. simpsons_1_3_rule c (Some p) w =
               Some (sum_from
                       (sum_from (f a + f b)
                          (map (\<lambda>i. lit c 4 * f (a + to_double c i * dx)) (filter odd [1..n - 1])))
                       (map (\<lambda>i. lit c 2 * f (a + to_double c i * dx)) (filter even [2..n - 2]))
                     * dx / lit c 3, w')
               \<and> length (evals w') = length (evals w) + nat n + 1)"
  proof
    assume e: "even n"
    then have ev: "even (num_intervals p)"
      by (simp add: n_def)
    show "\<exists>w'. simpsons_1_3_rule c (Some p) w =
               Some (sum_from
                       (sum_from (f a + f b)
                          (map (\<lambda>i. lit c 4 * f (a + to_double c i * dx)) (filter odd [1..n - 1])))
                       (map (\<lambda>i. lit c 2 * f (a + to_double c i * dx)) (filter even [2..n - 2]))
                     * dx / lit c 3, w')
               \<and> length (evals w') = length (evals w) + nat n + 1"
      unfolding a_def b_def dx_def n_def simpsons_1_3_valid [OF assms(1,2) ev]
      by (rule exI, rule conjI, rule refl) (rule simpsons_1_3_calls [OF ev pos [unfolded n_def]])
  qed
  moreover have "3 dvd n \<longrightarrow>
            (\<exists>w'. simpsons_3_8_rule c (Some p) w =
               Some (sum_from (f a + f b)
                       (map (\<lambda>i. (if 3 dvd i then lit c 2 * f (a + to_double c i * dx)
                                  else lit c 3 * f (a + to_double c i * dx))) [1..n - 1])
                     * dx * lit c 3 / lit c 8, w')
               \<and> length (evals w') = length (evals w) + nat n + 1)"
  proof
    assume "3 dvd n"
    then have d: "3 dvd num_intervals p"
      by (simp add: n_def)
    show "\<exists>w'. simpsons_3_8_rule c (Some p) w =
               Some (sum_from (f a + f b)
                       (map (\<lambda>i. (if 3 dvd i then lit c 2 * f (a + to_double c i * dx)
                                  else lit c 3 * f (a + to_double c i * dx))) [1..n - 1])
                     * dx * lit c 3 / lit c 8, w')
               \<and> length (evals w') = length (evals w) + nat n + 1"
      unfolding a_def b_def dx_def n_def simpsons_3_8_valid [OF assms(1,2) d]
      by (rule exI, rule conjI, rule refl) (rule simpsons_3_8_calls [OF pos [unfolded n_def]])
  qed
  ultimately show ?thesis by blast
qed

theorem simpsons_preconditions_witness:
  "\<not> is_invalid (Some (quadratic_problem_6 4)) \<and> \<not> is_invalid (Some (quadratic_problem_6 3))
   \<and> simpsons_1_3_rule exact_env (Some (quadratic_problem_6 3)) w0 = Some (NaN, w0)
   \<and> simpsons_3_8_rule exact_env (Some (quadratic_problem_6 4)) w0 = Some (NaN, w0)
   \<and> map_option fst (simpsons_1_3_rule exact_env (Some (quadratic_problem_6 4)) w0) = Some (Val 72)
   \<and> map_option fst (simpsons_3_8_rule exact_env (Some (quadratic_problem_6 3)) w0) = Some (Val 72)"
proof -
  have valid: "\<not> is_invalid (Some (quadratic_problem_6 4))" "\<not> is_invalid (Some (quadratic_problem_6 3))"
    and f: "func (quadratic_problem_6 4) = Some f_quadratic"
      "func (quadratic_problem_6 3) = Some f_quadratic"
    by (simp_all add: is_invalid_def quadratic_problem_6_def)
  have pts: "[1..3::int] = [1, 2, 3]" "[1..2::int] = [1, 2]"
    by (simp_all add: upto_rec1)
  have n: "num_intervals (quadratic_problem_6 k) = k" for k
    by (simp add: quadratic_problem_6_def)
  have four: "simpsons_3_8_rule exact_env (Some (quadratic_problem_6 4)) w0 = Some (NaN, w0)"
    "map_option fst (simpsons_1_3_rule exact_env (Some (quadratic_problem_6 4)) w0) = Some (Val 72)"
    using simpsons_preconditions [OF valid(1) f(1), of exact_env w0]
    by (auto simp: n pts dx_of_def quadratic_problem_6_def exact_env_def f_quadratic_def
          sum_from_def)
  have three: "simpsons_1_3_rule exact_env (Some (quadratic_problem_6 3)) w0 = Some (NaN, w0)"
    "map_option fst (simpsons_3_8_rule exact_env (Some (quadratic_problem_6 3)) w0) = Some (Val 72)"
    using simpsons_preconditions [OF valid(2) f(2), of exact_env w0]
    by (auto simp: n pts dx_of_def quadratic_problem_6_def exact_env_def f_quadratic_def
          sum_from_def)
  from valid four three show ?thesis by simp
qed

text \<open>
  C2 as stated has the rules return not-a-number only when the divisibility test fails.
  For the integrand constantly zero between \<open>- 2 ^ 1023\<close> and \<open>2 ^ 1023\<close> the request
  passes validation, \<open>upper - lower\<close> overflows to infinity and so does \<open>dx\<close>, the
  weighted sum is zero, and zero times infinity is not a number: Simpson's 1/3 rule
  returns not-a-number for \<open>n = 2\<close>, and Simpson's 3/8 rule for \<open>n = 3\<close>.
\<close>

theorem simpsons_nan_for_even_count:
  "\<not> is_invalid (Some (zero_on_wide_interval 2)) \<and> even (num_intervals (zero_on_wide_interval 2))
   \<and> simpsons_1_3_rule wide_env (Some (zero_on_wide_interval 2)) w0
        = Some (WNaN, w0\<lparr>evals := [Fin (- (2 ^ 1023)), Fin (2 ^ 1023), PInf]\<rparr>)
   \<and> \<not> is_invalid (Some (zero_on_wide_interval 3)) \<and> 3 dvd num_intervals (zero_on_wide_interval 3)
   \<and> simpsons_3_8_rule wide_env (Some (zero_on_wide_interval 3)) w0
        = Some (WNaN, w0\<lparr>evals := [Fin (- (2 ^ 1023)), Fin (2 ^ 1023), PInf, PInf]\<rparr>)"
  by (simp add: simpsons_1_3_rule_def simpsons_1_3_sum_def simpsons_3_8_rule_def is_invalid_def
        zero_on_wide_interval_def wide_env_def call_def for_inc.simps for_inc2.simps clip_def
        minus_wide_def w0_def)


section \<open>Monte Carlo integration\<close>

text \<open>
  C8. On a request that passes validation, Monte Carlo integration draws \<open>n\<close> values
  of \<open>rand()\<close>, calls the integrand at \<open>lower + u * (upper - lower)\<close> for each, where
  \<open>u\<close> is the value drawn, converted to \<open>double\<close> and divided by \<open>RAND_MAX\<close>, and
  returns \<open>(sum / n) * (upper - lower)\<close>, where \<open>sum\<close> accumulates the values of the
  integrand from \<open>0.0\<close>. The generator is left advanced by \<open>n\<close> draws.
\<close>

theorem monte_carlo_samples:
  fixes c :: "('d::{plus,minus,times,inverse,ord}) env" and w :: "'d world"
  assumes "\<not> is_invalid (Some p)" and "func p = Some f"
  defines "a \<equiv> lower_bound p" and "b \<equiv> upper_bound p" and "n \<equiv> num_intervals p"
    and "u \<equiv> \<lambda>k. to_double c (rng w k) / to_double c (RAND_MAX c)"
  shows "monte_carlo_integration c (Some p) w =
           Some (sum_from (lit c 0) (map (\<lambda>k. f (a + u k * (b - a))) [0..<nat n])
                   / to_double c n * (b - a),
                 w\<lparr>evals := evals w @ map (\<lambda>k. a + u k * (b - a)) [0..<nat n],
                   rng := (\<lambda>k. rng w (k + nat n))\<rparr>)
       \<and> int (length [0..<nat n]) = n"
proof -
  from assms(1) have pos: "0 < n"
    by (simp add: is_invalid_def n_def)
  then show ?thesis
    unfolding a_def b_def u_def
    using monte_carlo_valid [OF assms(1,2), of c w] by (simp add: n_def)
qed

theorem monte_carlo_samples_witness:
  "\<not> is_invalid (Some (quadratic_problem 2))
   \<and> monte_carlo_integration exact_env (Some (quadratic_problem 2)) w_step
        = Some (Val (1 / 2), w_max\<lparr>evals := [Val 0, Val 1]\<rparr>)"
proof -
  have valid: "\<not> is_invalid (Some (quadratic_problem 2))"
    and f: "func (quadratic_problem 2) = Some f_quadratic"
    by (simp_all add: is_invalid_def quadratic_problem_def)
  have two: "[0..<2] = [0, Suc 0]"
    by (simp add: upt_rec)
  show ?thesis
    using monte_carlo_samples [OF valid f, of exact_env w_step]
    by (simp add: valid two quadratic_problem_def w_step_def w_max_def f_quadratic_def
          exact_env_def is_invalid_def sum_from_def)
qed

text \<open>
  C8 as stated takes \<open>u\<close> from \<open>[0, 1)\<close> and has every draw strictly below
  \<open>upper\<close>. But \<open>rand()\<close> can return \<open>RAND_MAX\<close>, and then \<open>u\<close> is 1: on
  \<open>[0, 1]\<close> the draw is 1, the upper bound itself.
\<close>

theorem monte_carlo_draw_reaches_upper:
  "\<not> is_invalid (Some (quadratic_problem 1))
   \<and> (\<forall>k. 0 \<le> rng (w_max :: exact world) k \<and> rng (w_max :: exact world) k \<le> RAND_MAX exact_env)
   \<and> map_option (evals \<circ> snd) (monte_carlo_integration exact_env (Some (quadratic_problem 1)) w_max)
        = Some [Val 1]
   \<and> upper_bound (quadratic_problem 1) = Val 1
   \<and> \<not> Val 1 < upper_bound (quadratic_problem 1)"
  by (simp add: monte_carlo_integration_def is_invalid_def quadratic_problem_def Let_def
        for_inc.simps rand_def call_def exact_env_def w_max_def)


section \<open>Repeated calls\<close>

text \<open>
  C9. For each of the six deterministic rules, the result is the same in any two worlds,
  and so two calls with the same request, the second in the world that the first left,
  both return and return the same value. Monte Carlo integration can differ: with
  \<open>rand()\<close> answering 0 and then \<open>RAND_MAX\<close>, two calls for \<open>x * x\<close> on \<open>[0, 1]\<close>
  with one sample return 0 and then 1.
\<close>

theorem deterministic_rules_repeat:
  "map_option fst (rectangle_left_endpoint c params w') = map_option fst (rectangle_left_endpoint c params w)
   \<and> map_option fst (rectangle_right_endpoint c params w') = map_option fst (rectangle_right_endpoint c params w)
   \<and> map_option fst (rectangle_midpoint c params w') = map_option fst (rectangle_midpoint c params w)
   \<and> map_option fst (trapezoidal_rule c params w') = map_option fst (trapezoidal_rule c params w)
   \<and> map_option fst (simpsons_1_3_rule c params w') = map_option fst (simpsons_1_3_rule c params w)
   \<and> map_option fst (simpsons_3_8_rule c params w') = map_option fst (simpsons_3_8_rule c params w)
   \<and> (\<exists>r. call_twice (rectangle_left_endpoint c) params w = Some (r, r))
   \<and> (\<exists>r. call_twice (rectangle_right_endpoint c) params w = Some (r, r))
   \<and> (\<exists>r. call_twice (rectangle_midpoint c) params w = Some (r, r))
   \<and> (\<exists>r. call_twice (trapezoidal_rule c) params w = Some (r, r))
   \<and> (\<exists>r. call_twice (simpsons_1_3_rule c) params w = Some (r, r))
   \<and> (\<exists>r. call_twice (simpsons_3_8_rule c) params w = Some (r, r))
   \<and> call_twice (monte_carlo_integration exact_env) (Some (quadratic_problem 1)) w_step
        = Some (Val 0, Val 1)"
proof -
  have "call_twice (monte_carlo_integration exact_env) (Some (quadratic_problem 1)) w_step
      = Some (Val 0, Val 1)"
    by (simp add: call_twice_def monte_carlo_integration_def is_invalid_def quadratic_problem_def
          Let_def w_step_def for_inc.simps rand_def call_def exact_env_def f_quadratic_def)
  then show ?thesis
    by (intro conjI same_result_in_any_world left_result right_result midpoint_result
          trapezoidal_result simpsons_1_3_result simpsons_3_8_result)
qed

theorem deterministic_rules_repeat_witness:
  "call_twice (rectangle_left_endpoint exact_env) (Some (quadratic_problem 4)) w0
     = Some (Val (7 / 32), Val (7 / 32))
   \<and> call_twice (simpsons_1_3_rule exact_env) (Some (quadratic_problem_6 4)) w0
     = Some (Val 72, Val 72)"
proof -
  have pts: "[0..3::int] = [0, 1, 2, 3]" "[1..3::int] = [1, 2, 3]"
    by (simp_all add: upto_rec1)
  have first: "map_option fst (rectangle_left_endpoint exact_env (Some (quadratic_problem 4)) w0)
      = Some (Val (7 / 32))"
    "map_option fst (simpsons_1_3_rule exact_env (Some (quadratic_problem_6 4)) w0) = Some (Val 72)"
    by (simp_all add: left_valid [where g = f_quadratic] simpsons_1_3_valid [where g = f_quadratic]
          is_invalid_def quadratic_problem_def quadratic_problem_6_def dx_of_def pts exact_env_def
          f_quadratic_def sum_from_def)
  from deterministic_rules_repeat [of exact_env "Some (quadratic_problem 4)" w0 w0]
  obtain r where r: "call_twice (rectangle_left_endpoint exact_env) (Some (quadratic_problem 4)) w0
      = Some (r, r)"
    by blast
  from deterministic_rules_repeat [of exact_env "Some (quadratic_problem_6 4)" w0 w0]
  obtain s where s: "call_twice (simpsons_1_3_rule exact_env) (Some (quadratic_problem_6 4)) w0
      = Some (s, s)"
    by blast
  from call_twice_first [OF r] call_twice_first [OF s] first have "r = Val (7 / 32)" and "s = Val 72"
    by simp_all
  with r s show ?thesis
    by simp
qed

end
